theory Spec2Isabelle
  imports Main "HOL-Library.FSet" "HOL-Library.Product_Lexorder"
begin

section \<open>Data model\<close>

text \<open>
  A cell is a pair of Python integers \<open>(row, col)\<close>. Python sets are finite and
  compared by value, so a set of cells is a finite set (\<open>fset\<close>).
\<close>

type_synonym cell = "int \<times> int"

text \<open>
  Class \<open>Sentence\<close>: a set of cells and a count; \<open>__eq__\<close> compares both
  fields by value, which is the equality of the record.
\<close>

record sentence =
  cells :: "cell fset"
  count :: int

text \<open>Class \<open>MinesweeperAI\<close>: the fields set by \<open>__init__\<close>.\<close>

record engine =
  height :: int
  width :: int
  moves_made :: "cell fset"
  mines :: "cell fset"
  safes :: "cell fset"
  knowledge :: "sentence list"

definition init_engine :: "int \<Rightarrow> int \<Rightarrow> engine" where
  "init_engine h w =
     \<lparr>height = h, width = w, moves_made = {||}, mines = {||}, safes = {||}, knowledge = []\<rparr>"

text \<open>
  Class \<open>Minesweeper\<close> (the environment): \<open>board\<close> is a list of rows of
  booleans, \<open>True\<close> where a mine lies.
\<close>

record minesweeper =
  g_height :: int
  g_width :: int
  board :: "bool list list"

section \<open>The environment's neighbour count\<close>

definition in_bounds :: "int \<Rightarrow> int \<Rightarrow> cell \<Rightarrow> bool" where
  "in_bounds h w c = (0 \<le> fst c \<and> fst c < h \<and> 0 \<le> snd c \<and> snd c < w)"

text \<open>\<open>self.board[i][j]\<close>, read only at indices that are in bounds.\<close>

definition board_at :: "minesweeper \<Rightarrow> cell \<Rightarrow> bool" where
  "board_at g c = board g ! nat (fst c) ! nat (snd c)"

text \<open>
  \<open>Minesweeper.nearby_mines\<close>: the two nested \<open>range\<close> loops over the 3x3 block,
  skipping the cell itself and counting in-bounds mines.
\<close>

definition nearby_step :: "minesweeper \<Rightarrow> cell \<Rightarrow> cell \<Rightarrow> int \<Rightarrow> int" where
  "nearby_step g cell ij cnt =
     (if ij = cell then cnt
      else if in_bounds (g_height g) (g_width g) ij
        then (if board_at g ij then cnt + 1 else cnt)
        else cnt)"

definition nearby_mines :: "minesweeper \<Rightarrow> cell \<Rightarrow> int" where
  "nearby_mines g cell =
     fold (nearby_step g cell)
       (List.product [fst cell - 1 .. fst cell + 1] [snd cell - 1 .. snd cell + 1]) 0"

section \<open>Sentence\<close>

definition known_mines :: "sentence \<Rightarrow> cell fset" where
  "known_mines s =
     (if count s = int (fcard (cells s)) \<and> count s \<noteq> 0 then cells s else {||})"

definition known_safes :: "sentence \<Rightarrow> cell fset" where
  "known_safes s = (if count s = 0 then cells s else {||})"

definition Sentence_mark_mine :: "cell \<Rightarrow> sentence \<Rightarrow> sentence" where
  "Sentence_mark_mine cell s =
     (if cell |\<in>| cells s
      then s\<lparr>cells := cells s |-| {|cell|}, count := count s - 1\<rparr>
      else s)"

definition Sentence_mark_safe :: "cell \<Rightarrow> sentence \<Rightarrow> sentence" where
  "Sentence_mark_safe cell s =
     (if cell |\<in>| cells s then s\<lparr>cells := cells s |-| {|cell|}\<rparr> else s)"

section \<open>MinesweeperAI\<close>

definition mark_mine :: "cell \<Rightarrow> engine \<Rightarrow> engine" where
  "mark_mine cell st =
     st\<lparr>mines := finsert cell (mines st),
        knowledge := map (Sentence_mark_mine cell) (knowledge st)\<rparr>"

definition mark_safe :: "cell \<Rightarrow> engine \<Rightarrow> engine" where
  "mark_safe cell st =
     st\<lparr>safes := finsert cell (safes st),
        knowledge := map (Sentence_mark_safe cell) (knowledge st)\<rparr>"

text \<open>
  A \<open>for x in s\<close> loop over a Python set visits the members in an order the language
  leaves open. The model visits them in increasing order; \<open>fold_mark_safe_any_order\<close>
  and \<open>fold_mark_mine_any_order\<close> below show that every other order gives the same state.
\<close>

definition mark_safe_each :: "cell fset \<Rightarrow> engine \<Rightarrow> engine" where
  "mark_safe_each found st = fold mark_safe (sorted_list_of_fset found) st"

definition mark_mine_each :: "cell fset \<Rightarrow> engine \<Rightarrow> engine" where
  "mark_mine_each found st = fold mark_mine (sorted_list_of_fset found) st"

text \<open>
  One pass of the body of the \<open>while\<close> loop of \<open>update_knowledge\<close>: the scan that
  collects \<open>safes\<close> and \<open>mines\<close>, the two marking loops, and the removal of the
  sentences left without cells. The scan fills both sets in one loop over the knowledge
  base; neither set depends on the other, and each is a fold of its own here.
\<close>

definition found_safes :: "engine \<Rightarrow> cell fset" where
  "found_safes st = fold (\<lambda>sentence acc. acc |\<union>| known_safes sentence) (knowledge st) {||}"

definition found_mines :: "engine \<Rightarrow> cell fset" where
  "found_mines st = fold (\<lambda>sentence acc. acc |\<union>| known_mines sentence) (knowledge st) {||}"

definition update_pass :: "engine \<Rightarrow> engine" where
  "update_pass st =
     (let safes' = found_safes st;
          mines' = found_mines st;
          st1 = (if safes' \<noteq> {||} then mark_safe_each safes' st else st);
          st2 = (if mines' \<noteq> {||} then mark_mine_each mines' st1 else st1)
      in st2\<lparr>knowledge := filter (\<lambda>sentence. cells sentence \<noteq> {||}) (knowledge st2)\<rparr>)"

definition pass_updated :: "engine \<Rightarrow> bool" where
  "pass_updated st = (found_safes st \<noteq> {||} \<or> found_mines st \<noteq> {||})"

text \<open>
  The \<open>while knowledge_updated\<close> loop. The flag is the loop's first argument; a run
  that never leaves the loop has the value \<open>None\<close>.
\<close>

partial_function (option) update_loop :: "bool \<Rightarrow> engine \<Rightarrow> engine option" where
  "update_loop knowledge_updated st =
     (if knowledge_updated then update_loop (pass_updated st) (update_pass st) else Some st)"

definition update_knowledge :: "engine \<Rightarrow> engine option" where
  "update_knowledge st = update_loop True st"

text \<open>
  \<open>infer_new_sentences\<close>: the double loop over the knowledge base, collecting the
  derived sentences in \<open>new_knowledge\<close>, which is appended at the end.
\<close>

definition infer_inner :: "sentence \<Rightarrow> sentence \<Rightarrow> sentence list \<Rightarrow> sentence list" where
  "infer_inner sentence1 sentence2 new_knowledge =
     (if sentence1 = sentence2 then new_knowledge
      else if cells sentence1 |\<subseteq>| cells sentence2 then
        (let new_sentence = \<lparr>cells = cells sentence2 |-| cells sentence1,
                             count = count sentence2 - count sentence1\<rparr>
         in if new_sentence \<notin> set new_knowledge
            then new_knowledge @ [new_sentence] else new_knowledge)
      else new_knowledge)"

definition infer_new_knowledge :: "sentence list \<Rightarrow> sentence list" where
  "infer_new_knowledge kb =
     fold (\<lambda>sentence1 acc. fold (infer_inner sentence1) kb acc) kb []"

definition infer_new_sentences :: "engine \<Rightarrow> engine" where
  "infer_new_sentences st =
     st\<lparr>knowledge := knowledge st @ infer_new_knowledge (knowledge st)\<rparr>"

text \<open>
  \<open>add_knowledge\<close>. The neighbour loop runs over the nine offsets in the source's
  order and carries \<open>new_cells\<close> and \<open>known_mines_count\<close>.
\<close>

definition neighbor_step ::
  "engine \<Rightarrow> cell \<Rightarrow> int \<times> int \<Rightarrow> cell fset \<times> int \<Rightarrow> cell fset \<times> int" where
  "neighbor_step st cell d acc =
     (if fst d = 0 \<and> snd d = 0 then acc
      else
        (let neighbor = (fst cell + fst d, snd cell + snd d)
         in if in_bounds (height st) (width st) neighbor
            then (if neighbor |\<in>| mines st then (fst acc, snd acc + 1)
                  else if neighbor |\<notin>| safes st then (finsert neighbor (fst acc), snd acc)
                  else acc)
            else acc))"

definition neighbor_scan :: "engine \<Rightarrow> cell \<Rightarrow> cell fset \<times> int" where
  "neighbor_scan st cell =
     fold (neighbor_step st cell) (List.product [-1, 0, 1] [-1, 0, 1]) ({||}, 0)"

definition add_sentence :: "cell \<Rightarrow> int \<Rightarrow> engine \<Rightarrow> engine" where
  "add_sentence cell cnt st =
     (let (new_cells, known_mines_count) = neighbor_scan st cell
      in if new_cells \<noteq> {||}
         then st\<lparr>knowledge :=
                   knowledge st @ [\<lparr>cells = new_cells, count = cnt - known_mines_count\<rparr>]\<rparr>
         else st)"

definition add_knowledge :: "cell \<Rightarrow> int \<Rightarrow> engine \<Rightarrow> engine option" where
  "add_knowledge cell cnt st =
     (let st1 = st\<lparr>moves_made := finsert cell (moves_made st)\<rparr>;
          st2 = mark_safe cell st1;
          st3 = add_sentence cell cnt st2
      in map_option infer_new_sentences (update_knowledge st3))"

text \<open>A sequence of \<open>add_knowledge\<close> calls, one per observation \<open>(cell, count)\<close>.\<close>

fun add_knowledge_seq :: "(cell \<times> int) list \<Rightarrow> engine \<Rightarrow> engine option" where
  "add_knowledge_seq [] st = Some st"
| "add_knowledge_seq (ob # obs) st =
     (case add_knowledge (fst ob) (snd ob) st of
        None \<Rightarrow> None
      | Some st' \<Rightarrow> add_knowledge_seq obs st')"

text \<open>
  \<open>make_random_move\<close>. \<open>random.choice(choices)\<close> returns \<open>choices[i]\<close> for an index
  \<open>i\<close> below \<open>len(choices)\<close> drawn at random; the draw is the argument \<open>r\<close>, reduced
  modulo the length, so that every \<open>r\<close> is a possible run and every index is reached.
\<close>

definition random_choices :: "engine \<Rightarrow> cell list" where
  "random_choices st =
     filter (\<lambda>c. c |\<notin>| moves_made st \<and> c |\<notin>| mines st)
       (List.product [0 .. height st - 1] [0 .. width st - 1])"

definition make_random_move :: "nat \<Rightarrow> engine \<Rightarrow> cell option" where
  "make_random_move r st =
     (let choices = random_choices st
      in if choices \<noteq> [] then Some (choices ! (r mod length choices)) else None)"

section \<open>Auxiliary notions for the proofs\<close>

text \<open>
  The net effect on one sentence of marking every cell of \<open>X\<close> safe, respectively a
  mine: the cells of \<open>X\<close> leave the sentence, and as mines each one that was present
  lowers the count by one.
\<close>

definition purge_safe :: "cell fset \<Rightarrow> sentence \<Rightarrow> sentence" where
  "purge_safe X s = s\<lparr>cells := cells s |-| X\<rparr>"

definition purge_mine :: "cell fset \<Rightarrow> sentence \<Rightarrow> sentence" where
  "purge_mine X s = s\<lparr>cells := cells s |-| X, count := count s - int (fcard (cells s |\<inter>| X))\<rparr>"

text \<open>The total number of cells over all sentences of the knowledge base.\<close>

definition total_cells :: "engine \<Rightarrow> nat" where
  "total_cells st = sum_list (map (\<lambda>sentence. fcard (cells sentence)) (knowledge st))"

text \<open>
  The operations a caller can apply to an engine, and a run of them from a given state.
  \<open>make_safe_move\<close> and \<open>make_random_move\<close> leave the engine as it is and are
  not listed.
\<close>

datatype operation =
    Add_knowledge cell int
  | Mark_mine cell
  | Mark_safe cell
  | Update_knowledge
  | Infer_new_sentences

fun apply_operation :: "operation \<Rightarrow> engine \<Rightarrow> engine option" where
  "apply_operation (Add_knowledge cell cnt) st = add_knowledge cell cnt st"
| "apply_operation (Mark_mine cell) st = Some (mark_mine cell st)"
| "apply_operation (Mark_safe cell) st = Some (mark_safe cell st)"
| "apply_operation Update_knowledge st = update_knowledge st"
| "apply_operation Infer_new_sentences st = Some (infer_new_sentences st)"

fun apply_operations :: "operation list \<Rightarrow> engine \<Rightarrow> engine option" where
  "apply_operations [] st = Some st"
| "apply_operations (x # xs) st =
     (case apply_operation x st of None \<Rightarrow> None | Some st' \<Rightarrow> apply_operations xs st')"

text \<open>Every cell of every sentence lies on the engine's grid.\<close>

definition cells_in_bounds :: "engine \<Rightarrow> bool" where
  "cells_in_bounds st =
     list_all (\<lambda>sentence. fBall (cells sentence) (in_bounds (height st) (width st)))
       (knowledge st)"

text \<open>
  The sentence that \<open>infer_new_sentences\<close> builds from a pair \<open>(sentence1, sentence2)\<close>,
  and the set of all sentences it builds from a knowledge base.
\<close>

definition derive :: "sentence \<Rightarrow> sentence \<Rightarrow> sentence" where
  "derive a b = \<lparr>cells = cells b |-| cells a, count = count b - count a\<rparr>"

definition derivable :: "sentence list \<Rightarrow> sentence set" where
  "derivable kb =
     {derive a b | a b. a \<in> set kb \<and> b \<in> set kb \<and> a \<noteq> b \<and> cells a |\<subseteq>| cells b}"

text \<open>The eight cells around a cell, in the order in which both neighbour loops visit them.\<close>

definition neighbors8 :: "cell \<Rightarrow> cell list" where
  "neighbors8 c =
     [(fst c - 1, snd c - 1), (fst c - 1, snd c), (fst c - 1, snd c + 1),
      (fst c, snd c - 1), (fst c, snd c + 1),
      (fst c + 1, snd c - 1), (fst c + 1, snd c), (fst c + 1, snd c + 1)]"

section \<open>The caller contract\<close>

text \<open>
  \<open>Minesweeper.__init__\<close> builds a board of \<open>height\<close> rows with \<open>width\<close> entries
  each, so that every read at an in-bounds cell is within range.
\<close>

definition board_ok :: "minesweeper \<Rightarrow> bool" where
  "board_ok g =
     (length (board g) = nat (g_height g) \<and>
      list_all (\<lambda>row. length row = nat (g_width g)) (board g))"

text \<open>A cell of the grid that holds a mine, and the number of mines in a set of cells.\<close>

definition true_mine :: "minesweeper \<Rightarrow> cell \<Rightarrow> bool" where
  "true_mine g c = (in_bounds (g_height g) (g_width g) c \<and> board_at g c)"

definition mines_among :: "minesweeper \<Rightarrow> cell fset \<Rightarrow> int" where
  "mines_among g A = int (fcard (ffilter (true_mine g) A))"

text \<open>
  An observation \<open>(cell, count)\<close> respects the contract of \<open>add_knowledge\<close> for the
  game \<open>g\<close>: the cell is on the grid and is not a mine, and the count is the one
  \<open>nearby_mines\<close> reports for it.
\<close>

definition obeys_contract :: "minesweeper \<Rightarrow> cell \<times> int \<Rightarrow> bool" where
  "obeys_contract g ob =
     (in_bounds (g_height g) (g_width g) (fst ob) \<and> \<not> board_at g (fst ob) \<and>
      snd ob = nearby_mines g (fst ob))"

text \<open>
  The engine agrees with the game: same grid, no known safe cell is a mine, every known
  mine is one, and every sentence counts the mines among its cells.
\<close>

definition sound :: "minesweeper \<Rightarrow> engine \<Rightarrow> bool" where
  "sound g st =
     (height st = g_height g \<and> width st = g_width g \<and>
      ffilter (true_mine g) (safes st) = {||} \<and>
      ffilter (true_mine g) (mines st) = mines st \<and>
      list_all (\<lambda>s. count s = mines_among g (cells s)) (knowledge st))"

section \<open>Example states\<close>

text \<open>A 3x3 engine whose only sentence says that the cell \<open>(1, 1)\<close> is a mine.\<close>

definition st_single_mine :: engine where
  "st_single_mine =
     \<lparr>height = 3, width = 3, moves_made = {||}, mines = {||}, safes = {||},
      knowledge = [\<lparr>cells = {|(1, 1)|}, count = 1\<rparr>]\<rparr>"

text \<open>
  A 4x4 game with the observations \<open>((0, 0), 1)\<close>, \<open>((0, 1), 2)\<close>, \<open>((3, 3), 1)\<close>:
  the engine after the first call, in the second call before and after the inference
  pass, and in the third call before and after the inference pass.
\<close>

definition dup_1 :: engine where
  "dup_1 = \<lparr>height = 4, width = 4, moves_made = {|(0, 0)|}, mines = {||}, safes = {|(0, 0)|},
     knowledge = [\<lparr>cells = {|(0, 1), (1, 0), (1, 1)|}, count = 1\<rparr>]\<rparr>"

definition dup_2_pre :: engine where
  "dup_2_pre = \<lparr>height = 4, width = 4, moves_made = {|(0, 0), (0, 1)|}, mines = {||},
     safes = {|(0, 0), (0, 1)|},
     knowledge = [\<lparr>cells = {|(1, 0), (1, 1)|}, count = 1\<rparr>,
                  \<lparr>cells = {|(0, 2), (1, 0), (1, 1), (1, 2)|}, count = 2\<rparr>]\<rparr>"

definition dup_2 :: engine where
  "dup_2 = \<lparr>height = 4, width = 4, moves_made = {|(0, 0), (0, 1)|}, mines = {||},
     safes = {|(0, 0), (0, 1)|},
     knowledge = [\<lparr>cells = {|(1, 0), (1, 1)|}, count = 1\<rparr>,
                  \<lparr>cells = {|(0, 2), (1, 0), (1, 1), (1, 2)|}, count = 2\<rparr>,
                  \<lparr>cells = {|(0, 2), (1, 2)|}, count = 1\<rparr>]\<rparr>"

definition dup_3_pre :: engine where
  "dup_3_pre = \<lparr>height = 4, width = 4, moves_made = {|(0, 0), (0, 1), (3, 3)|}, mines = {||},
     safes = {|(0, 0), (0, 1), (3, 3)|},
     knowledge = [\<lparr>cells = {|(1, 0), (1, 1)|}, count = 1\<rparr>,
                  \<lparr>cells = {|(0, 2), (1, 0), (1, 1), (1, 2)|}, count = 2\<rparr>,
                  \<lparr>cells = {|(0, 2), (1, 2)|}, count = 1\<rparr>,
                  \<lparr>cells = {|(2, 2), (2, 3), (3, 2)|}, count = 1\<rparr>]\<rparr>"

definition dup_3 :: engine where
  "dup_3 = \<lparr>height = 4, width = 4, moves_made = {|(0, 0), (0, 1), (3, 3)|}, mines = {||},
     safes = {|(0, 0), (0, 1), (3, 3)|},
     knowledge = [\<lparr>cells = {|(1, 0), (1, 1)|}, count = 1\<rparr>,
                  \<lparr>cells = {|(0, 2), (1, 0), (1, 1), (1, 2)|}, count = 2\<rparr>,
                  \<lparr>cells = {|(0, 2), (1, 2)|}, count = 1\<rparr>,
                  \<lparr>cells = {|(2, 2), (2, 3), (3, 2)|}, count = 1\<rparr>,
                  \<lparr>cells = {|(0, 2), (1, 2)|}, count = 1\<rparr>,
                  \<lparr>cells = {|(1, 0), (1, 1)|}, count = 1\<rparr>]\<rparr>"

text \<open>
  A 2x3 game whose only mine is \<open>(0, 1)\<close>, with the observations \<open>((1, 2), 1)\<close>,
  \<open>((1, 0), 1)\<close>, \<open>((1, 1), 1)\<close>: the engine after the first and the second call,
  and in the third call before and after the inference pass.
\<close>

definition game_2x3 :: minesweeper where
  "game_2x3 = \<lparr>g_height = 2, g_width = 3,
     board = [[False, True, False], [False, False, False]]\<rparr>"

definition ab_1 :: engine where
  "ab_1 = \<lparr>height = 2, width = 3, moves_made = {|(1, 2)|}, mines = {||}, safes = {|(1, 2)|},
     knowledge = [\<lparr>cells = {|(0, 1), (0, 2), (1, 1)|}, count = 1\<rparr>]\<rparr>"

definition ab_2 :: engine where
  "ab_2 = \<lparr>height = 2, width = 3, moves_made = {|(1, 2), (1, 0)|}, mines = {||},
     safes = {|(1, 2), (1, 0)|},
     knowledge = [\<lparr>cells = {|(0, 1), (0, 2), (1, 1)|}, count = 1\<rparr>,
                  \<lparr>cells = {|(0, 0), (0, 1), (1, 1)|}, count = 1\<rparr>]\<rparr>"

definition ab_3_pre :: engine where
  "ab_3_pre = \<lparr>height = 2, width = 3, moves_made = {|(1, 2), (1, 0), (1, 1)|}, mines = {||},
     safes = {|(1, 2), (1, 0), (1, 1)|},
     knowledge = [\<lparr>cells = {|(0, 1), (0, 2)|}, count = 1\<rparr>,
                  \<lparr>cells = {|(0, 0), (0, 1)|}, count = 1\<rparr>,
                  \<lparr>cells = {|(0, 0), (0, 1), (0, 2)|}, count = 1\<rparr>]\<rparr>"

definition ab_3 :: engine where
  "ab_3 = \<lparr>height = 2, width = 3, moves_made = {|(1, 2), (1, 0), (1, 1)|}, mines = {||},
     safes = {|(1, 2), (1, 0), (1, 1)|},
     knowledge = [\<lparr>cells = {|(0, 1), (0, 2)|}, count = 1\<rparr>,
                  \<lparr>cells = {|(0, 0), (0, 1)|}, count = 1\<rparr>,
                  \<lparr>cells = {|(0, 0), (0, 1), (0, 2)|}, count = 1\<rparr>,
                  \<lparr>cells = {|(0, 0)|}, count = 0\<rparr>,
                  \<lparr>cells = {|(0, 2)|}, count = 0\<rparr>]\<rparr>"

text \<open>
  The same game with the observation \<open>((1, 1), 1)\<close> made once more: the engine of the
  fourth call when the saturation loop starts, after its first pass, and when the call
  returns.
\<close>

definition ab_4_pre :: engine where
  "ab_4_pre = \<lparr>height = 2, width = 3, moves_made = {|(1, 2), (1, 0), (1, 1)|}, mines = {||},
     safes = {|(1, 2), (1, 0), (1, 1)|},
     knowledge = [\<lparr>cells = {|(0, 1), (0, 2)|}, count = 1\<rparr>,
                  \<lparr>cells = {|(0, 0), (0, 1)|}, count = 1\<rparr>,
                  \<lparr>cells = {|(0, 0), (0, 1), (0, 2)|}, count = 1\<rparr>,
                  \<lparr>cells = {|(0, 0)|}, count = 0\<rparr>,
                  \<lparr>cells = {|(0, 2)|}, count = 0\<rparr>,
                  \<lparr>cells = {|(0, 0), (0, 1), (0, 2)|}, count = 1\<rparr>]\<rparr>"

definition ab_4_pass :: engine where
  "ab_4_pass = \<lparr>height = 2, width = 3, moves_made = {|(1, 2), (1, 0), (1, 1)|}, mines = {||},
     safes = {|(1, 2), (1, 0), (1, 1), (0, 0), (0, 2)|},
     knowledge = [\<lparr>cells = {|(0, 1)|}, count = 1\<rparr>,
                  \<lparr>cells = {|(0, 1)|}, count = 1\<rparr>,
                  \<lparr>cells = {|(0, 1)|}, count = 1\<rparr>,
                  \<lparr>cells = {|(0, 1)|}, count = 1\<rparr>]\<rparr>"

definition ab_4 :: engine where
  "ab_4 = \<lparr>height = 2, width = 3, moves_made = {|(1, 2), (1, 0), (1, 1)|},
     mines = {|(0, 1)|}, safes = {|(1, 2), (1, 0), (1, 1), (0, 0), (0, 2)|},
     knowledge = []\<rparr>"

text \<open>A 2x2 engine after the observation \<open>((-1, 0), 1)\<close> of a cell off the grid.\<close>

definition st_oob :: engine where
  "st_oob = \<lparr>height = 2, width = 2, moves_made = {|(- 1, 0)|}, mines = {||},
     safes = {|(- 1, 0)|},
     knowledge = [\<lparr>cells = {|(0, 0), (0, 1)|}, count = 1\<rparr>]\<rparr>"

text \<open>A 1x2 engine in which \<open>(0, 0)\<close> has been played.\<close>

definition st_rand :: engine where
  "st_rand = \<lparr>height = 1, width = 2, moves_made = {|(0, 0)|}, mines = {||},
     safes = {|(0, 0)|}, knowledge = []\<rparr>"

section \<open>Marking cells: closed forms\<close>

lemma Sentence_mark_safe_purge: "Sentence_mark_safe c s = purge_safe {|c|} s"
  by (auto simp: Sentence_mark_safe_def purge_safe_def)

lemma Sentence_mark_mine_purge: "Sentence_mark_mine c s = purge_mine {|c|} s"
  by (auto simp: Sentence_mark_mine_def purge_mine_def fcard_finsert_if)

lemma fminus_fminus_funion: "A |-| X |-| Y = A |-| (X |\<union>| Y)" for A :: "'a fset"
  by auto

lemma purge_safe_purge_safe: "purge_safe Y (purge_safe X s) = purge_safe (X |\<union>| Y) s"
  by (simp add: purge_safe_def fminus_fminus_funion)

lemma fcard_inter_split:
  "fcard (A |\<inter>| (X |\<union>| Y)) = fcard (A |\<inter>| X) + fcard ((A |-| X) |\<inter>| Y)"
proof -
  have "A |\<inter>| (X |\<union>| Y) = (A |\<inter>| X) |\<union>| ((A |-| X) |\<inter>| Y)" by auto
  moreover have "(A |\<inter>| X) |\<inter>| ((A |-| X) |\<inter>| Y) = {||}" by auto
  ultimately show ?thesis
    by (metis fcard_funion_disjoint)
qed

lemma purge_mine_purge_mine: "purge_mine Y (purge_mine X s) = purge_mine (X |\<union>| Y) s"
  by (simp add: purge_mine_def fcard_inter_split fminus_fminus_funion)

lemma fold_mark_safe:
  "fold mark_safe xs st =
     st\<lparr>safes := safes st |\<union>| fset_of_list xs,
        knowledge := map (purge_safe (fset_of_list xs)) (knowledge st)\<rparr>"
proof (induction xs arbitrary: st)
  case Nil
  show ?case by (simp add: purge_safe_def)
next
  case (Cons x xs)
  show ?case
    by (simp add: Cons.IH)
       (simp add: mark_safe_def Sentence_mark_safe_purge purge_safe_purge_safe comp_def)

qed

lemma fold_mark_mine:
  "fold mark_mine xs st =
     st\<lparr>mines := mines st |\<union>| fset_of_list xs,
        knowledge := map (purge_mine (fset_of_list xs)) (knowledge st)\<rparr>"
proof (induction xs arbitrary: st)
  case Nil
  show ?case by (simp add: purge_mine_def fcard_fempty)
next
  case (Cons x xs)
  show ?case
    by (simp add: Cons.IH)
       (simp add: mark_mine_def Sentence_mark_mine_purge purge_mine_purge_mine comp_def)
qed

lemma mark_safe_each_eq:
  "mark_safe_each X st =
     st\<lparr>safes := safes st |\<union>| X, knowledge := map (purge_safe X) (knowledge st)\<rparr>"
  by (simp add: mark_safe_each_def fold_mark_safe)

lemma mark_mine_each_eq:
  "mark_mine_each X st =
     st\<lparr>mines := mines st |\<union>| X, knowledge := map (purge_mine X) (knowledge st)\<rparr>"
  by (simp add: mark_mine_each_def fold_mark_mine)

lemma fold_mark_safe_any_order:
  "fset_of_list xs = found \<Longrightarrow> fold mark_safe xs st = mark_safe_each found st"
  by (simp add: mark_safe_each_eq fold_mark_safe)

lemma fold_mark_mine_any_order:
  "fset_of_list xs = found \<Longrightarrow> fold mark_mine xs st = mark_mine_each found st"
  by (simp add: mark_mine_each_eq fold_mark_mine)

lemma update_loop_True: "update_loop True st = update_loop (pass_updated st) (update_pass st)"
  by (subst update_loop.simps) simp

lemma update_loop_False: "update_loop False st = Some st"
  by (subst update_loop.simps) simp

section \<open>The saturation loop\<close>

lemma purge_safe_empty [simp]: "purge_safe {||} s = s"
  by (simp add: purge_safe_def)

lemma purge_mine_empty [simp]: "purge_mine {||} s = s"
  by (simp add: purge_mine_def fcard_fempty)

lemma fold_funion_member:
  "c |\<in>| fold (\<lambda>s acc. acc |\<union>| f s) kb A \<longleftrightarrow> c |\<in>| A \<or> (\<exists>s\<in>set kb. c |\<in>| f s)"
  by (induction kb arbitrary: A) auto

lemma found_safes_iff:
  "c |\<in>| found_safes st \<longleftrightarrow> (\<exists>s\<in>set (knowledge st). count s = 0 \<and> c |\<in>| cells s)"
  by (auto simp: found_safes_def fold_funion_member known_safes_def split: if_splits)

lemma found_mines_iff:
  "c |\<in>| found_mines st \<longleftrightarrow>
     (\<exists>s\<in>set (knowledge st). count s = int (fcard (cells s)) \<and> count s \<noteq> 0 \<and> c |\<in>| cells s)"
  by (auto simp: found_mines_def fold_funion_member known_mines_def split: if_splits)

lemma update_pass_eq:
  "update_pass st =
     st\<lparr>safes := safes st |\<union>| found_safes st,
        mines := mines st |\<union>| found_mines st,
        knowledge := filter (\<lambda>s. cells s \<noteq> {||})
          (map (\<lambda>s. purge_mine (found_mines st) (purge_safe (found_safes st) s)) (knowledge st))\<rparr>"
  by (simp add: update_pass_def Let_def mark_safe_each_eq mark_mine_each_eq comp_def)

lemma cells_purge: "cells (purge_mine M (purge_safe S s)) = cells s |-| (S |\<union>| M)"
  by (simp add: purge_mine_def purge_safe_def fminus_fminus_funion)

lemma sum_list_less_ex:
  fixes f g :: "'a \<Rightarrow> nat"
  assumes "\<forall>x\<in>set xs. f x \<le> g x" and "\<exists>x\<in>set xs. f x < g x"
  shows "sum_list (map f xs) < sum_list (map g xs)"
  using assms
proof (induction xs)
  case Nil
  then show ?case by simp
next
  case (Cons x xs)
  have le: "sum_list (map f xs) \<le> sum_list (map g xs)"
    using Cons.prems(1) by (intro sum_list_mono) simp
  show ?case
  proof (cases "f x < g x")
    case True
    with le show ?thesis by simp
  next
    case False
    with Cons.prems have "\<exists>y\<in>set xs. f y < g y" and "f x \<le> g x" by auto
    with Cons.IH Cons.prems(1) show ?thesis by simp
  qed
qed

lemma update_pass_decreases:
  assumes "pass_updated st"
  shows "total_cells (update_pass st) < total_cells st"
proof -
  let ?S = "found_safes st" and ?M = "found_mines st"
  let ?f = "\<lambda>s. fcard (cells s |-| (?S |\<union>| ?M))"
  from assms obtain c where c: "c |\<in>| ?S |\<union>| ?M"
    unfolding pass_updated_def by auto
  then obtain s0 where s0: "s0 \<in> set (knowledge st)" "c |\<in>| cells s0"
    by (auto simp: found_safes_iff found_mines_iff)
  have le: "\<forall>s\<in>set (knowledge st). ?f s \<le> fcard (cells s)"
    by (auto intro!: fcard_mono)
  have "cells s0 |-| (?S |\<union>| ?M) |\<subset>| cells s0"
    using c s0(2) by auto
  then have "?f s0 < fcard (cells s0)"
    by (rule pfsubset_fcard_mono)
  with s0(1) have "\<exists>s\<in>set (knowledge st). ?f s < fcard (cells s)" by blast
  with le have lt: "sum_list (map ?f (knowledge st)) < total_cells st"
    unfolding total_cells_def by (rule sum_list_less_ex)
  have "total_cells (update_pass st) \<le> sum_list (map ?f (knowledge st))"
    using sum_list_filter_le_nat
      [of "\<lambda>s. fcard (cells s)" "\<lambda>s. cells s \<noteq> {||}"
          "map (\<lambda>s. purge_mine ?M (purge_safe ?S s)) (knowledge st)"]
    by (simp add: total_cells_def update_pass_eq comp_def cells_purge)
  with lt show ?thesis by simp
qed

lemma update_loop_terminates: "\<exists>st'. update_loop b st = Some st'"
proof (induction st arbitrary: b rule: measure_induct_rule [where f = total_cells])
  case (less st)
  show ?case
  proof (cases b)
    case False
    then show ?thesis by (simp add: update_loop_False)
  next
    case True
    show ?thesis
    proof (cases "pass_updated st")
      case updated: True
      from less.IH [OF update_pass_decreases [OF updated]] True show ?thesis
        by (simp add: update_loop_True)
    next
      case False
      with True show ?thesis by (simp add: update_loop_True update_loop_False)
    qed
  qed
qed

lemma update_loop_invariant:
  assumes "update_loop b st = Some st'" and "P st" and "\<And>s. P s \<Longrightarrow> P (update_pass s)"
  shows "P st'"
  using assms(1,2)
proof (induction st arbitrary: b rule: measure_induct_rule [where f = total_cells])
  case (less st)
  show ?case
  proof (cases b)
    case False
    with less.prems show ?thesis by (simp add: update_loop_False)
  next
    case True
    show ?thesis
    proof (cases "pass_updated st")
      case updated: True
      from less.prems True have "update_loop True (update_pass st) = Some st'"
        by (simp add: update_loop_True updated)
      from less.IH [OF update_pass_decreases [OF updated] this assms(3) [OF less.prems(2)]]
      show ?thesis .
    next
      case False
      with True less.prems have "st' = update_pass st"
        by (simp add: update_loop_True update_loop_False)
      with assms(3) [OF less.prems(2)] show ?thesis by simp
    qed
  qed
qed

lemma update_pass_fixpoint:
  assumes "\<not> pass_updated st"
  shows "\<not> pass_updated (update_pass st)"
proof -
  from assms have e: "found_safes st = {||}" "found_mines st = {||}"
    by (simp_all add: pass_updated_def)
  have k: "knowledge (update_pass st) = filter (\<lambda>s. cells s \<noteq> {||}) (knowledge st)"
    by (simp add: update_pass_eq e)
  have "found_safes (update_pass st) |\<subseteq>| found_safes st"
    by (auto simp: found_safes_iff k)
  moreover have "found_mines (update_pass st) |\<subseteq>| found_mines st"
    by (auto simp: found_mines_iff k)
  ultimately show ?thesis using e by (auto simp: pass_updated_def)
qed

lemma update_loop_fixpoint:
  assumes "update_loop b st = Some st'" and "b \<or> \<not> pass_updated st"
  shows "\<not> pass_updated st'"
  using assms
proof (induction st arbitrary: b rule: measure_induct_rule [where f = total_cells])
  case (less st)
  show ?case
  proof (cases b)
    case False
    with less.prems show ?thesis by (simp add: update_loop_False)
  next
    case True
    show ?thesis
    proof (cases "pass_updated st")
      case updated: True
      from less.prems True have "update_loop True (update_pass st) = Some st'"
        by (simp add: update_loop_True updated)
      from less.IH [OF update_pass_decreases [OF updated] this] show ?thesis by simp
    next
      case False
      with True less.prems have "st' = update_pass st"
        by (simp add: update_loop_True update_loop_False)
      with update_pass_fixpoint [OF False] show ?thesis by simp
    qed
  qed
qed

section \<open>Frames: what each step leaves unchanged\<close>

lemma update_pass_frame:
  "height (update_pass st) = height st" "width (update_pass st) = width st"
  "moves_made (update_pass st) = moves_made st"
  "safes st |\<subseteq>| safes (update_pass st)" "mines st |\<subseteq>| mines (update_pass st)"
  by (auto simp: update_pass_eq)

lemma update_loop_frame:
  assumes "update_loop b st = Some st'"
  shows "height st' = height st \<and> width st' = width st \<and> moves_made st' = moves_made st \<and>
         safes st |\<subseteq>| safes st' \<and> mines st |\<subseteq>| mines st'"
  by (rule update_loop_invariant [OF assms]) (auto simp: update_pass_eq)

lemma add_sentence_frame:
  "height (add_sentence c n st) = height st" "width (add_sentence c n st) = width st"
  "moves_made (add_sentence c n st) = moves_made st"
  "safes (add_sentence c n st) = safes st" "mines (add_sentence c n st) = mines st"
  by (simp_all add: add_sentence_def Let_def split: prod.splits)

lemma add_knowledge_total: "\<exists>st'. add_knowledge c n st = Some st'"
  using update_loop_terminates [of True]
  by (simp add: add_knowledge_def Let_def update_knowledge_def)

lemma add_knowledge_frame:
  assumes "add_knowledge c n st = Some st'"
  shows "height st' = height st" "width st' = width st"
    "moves_made st' = finsert c (moves_made st)"
    "finsert c (safes st) |\<subseteq>| safes st'" "mines st |\<subseteq>| mines st'"
proof -
  let ?st3 = "add_sentence c n (mark_safe c (st\<lparr>moves_made := finsert c (moves_made st)\<rparr>))"
  from assms obtain st4 where u: "update_loop True ?st3 = Some st4"
    and st': "st' = infer_new_sentences st4"
    by (auto simp: add_knowledge_def Let_def update_knowledge_def)
  note f = update_loop_frame [OF u]
  show "height st' = height st" "width st' = width st"
    "moves_made st' = finsert c (moves_made st)"
    "finsert c (safes st) |\<subseteq>| safes st'" "mines st |\<subseteq>| mines st'"
    using f by (simp_all add: st' infer_new_sentences_def add_sentence_frame mark_safe_def)
qed

lemma add_knowledge_seq_total: "\<exists>st'. add_knowledge_seq obs st = Some st'"
proof (induction obs arbitrary: st)
  case Nil
  show ?case by simp
next
  case (Cons ob obs)
  obtain st1 where "add_knowledge (fst ob) (snd ob) st = Some st1"
    using add_knowledge_total by blast
  with Cons.IH [of st1] show ?case by simp
qed

lemma add_knowledge_seq_mono:
  "add_knowledge_seq obs st = Some st' \<Longrightarrow> safes st |\<subseteq>| safes st' \<and> mines st |\<subseteq>| mines st'"
proof (induction obs arbitrary: st)
  case Nil
  then show ?case by simp
next
  case (Cons ob obs)
  then obtain st1 where 1: "add_knowledge (fst ob) (snd ob) st = Some st1"
    and 2: "add_knowledge_seq obs st1 = Some st'"
    by (auto split: option.splits)
  from add_knowledge_frame(4,5) [OF 1] Cons.IH [OF 2] show ?case by auto
qed

lemma add_knowledge_seq_moves_safe:
  "add_knowledge_seq obs st = Some st' \<Longrightarrow> moves_made st |\<subseteq>| safes st \<Longrightarrow>
   moves_made st' |\<subseteq>| safes st'"
proof (induction obs arbitrary: st)
  case Nil
  then show ?case by simp
next
  case (Cons ob obs)
  then obtain st1 where 1: "add_knowledge (fst ob) (snd ob) st = Some st1"
    and 2: "add_knowledge_seq obs st1 = Some st'"
    by (auto split: option.splits)
  from add_knowledge_frame(3,4) [OF 1] Cons.prems(2)
  have "moves_made st1 |\<subseteq>| safes st1" by auto
  with Cons.IH [OF 2] show ?case .
qed

section \<open>Marking twice\<close>

lemma Sentence_mark_mine_twice:
  "Sentence_mark_mine c (Sentence_mark_mine c s) = Sentence_mark_mine c s"
  by (simp add: Sentence_mark_mine_def)

lemma Sentence_mark_safe_twice:
  "Sentence_mark_safe c (Sentence_mark_safe c s) = Sentence_mark_safe c s"
  by (simp add: Sentence_mark_safe_def)

section \<open>The candidates of a random move\<close>

lemma set_random_choices:
  "set (random_choices st) =
     {c. in_bounds (height st) (width st) c} - (fset (moves_made st) \<union> fset (mines st))"
  by (auto simp: random_choices_def in_bounds_def)

section \<open>The inference pass\<close>

lemma infer_inner_set:
  "set (infer_inner a b acc) =
     set acc \<union> (if a \<noteq> b \<and> cells a |\<subseteq>| cells b then {derive a b} else {})"
  by (auto simp: infer_inner_def derive_def Let_def)

lemma infer_inner_distinct: "distinct acc \<Longrightarrow> distinct (infer_inner a b acc)"
  by (auto simp: infer_inner_def Let_def)

lemma fold_infer_inner_set:
  "set (fold (infer_inner a) bs acc) =
     set acc \<union> {derive a b | b. b \<in> set bs \<and> a \<noteq> b \<and> cells a |\<subseteq>| cells b}"
  by (induction bs arbitrary: acc) (auto simp: infer_inner_set)

lemma fold_infer_inner_distinct:
  "distinct acc \<Longrightarrow> distinct (fold (infer_inner a) bs acc)"
  by (induction bs arbitrary: acc) (auto simp: infer_inner_distinct)

lemma fold_fold_infer_set:
  "set (fold (\<lambda>a acc. fold (infer_inner a) kb acc) as acc) =
     set acc \<union>
     {derive a b | a b. a \<in> set as \<and> b \<in> set kb \<and> a \<noteq> b \<and> cells a |\<subseteq>| cells b}"
  by (induction as arbitrary: acc) (auto simp: fold_infer_inner_set)

lemma fold_fold_infer_distinct:
  "distinct acc \<Longrightarrow> distinct (fold (\<lambda>a acc. fold (infer_inner a) kb acc) as acc)"
  by (induction as arbitrary: acc) (auto simp: fold_infer_inner_distinct)

lemma set_infer_new_knowledge: "set (infer_new_knowledge kb) = derivable kb"
  by (simp add: infer_new_knowledge_def fold_fold_infer_set derivable_def)

lemma distinct_infer_new_knowledge: "distinct (infer_new_knowledge kb)"
  by (simp add: infer_new_knowledge_def fold_fold_infer_distinct)

section \<open>Cells stay on the grid\<close>

lemma fold_invariant:
  assumes "P acc" and "\<And>x acc. x \<in> set xs \<Longrightarrow> P acc \<Longrightarrow> P (f x acc)"
  shows "P (fold f xs acc)"
  using assms by (induction xs arbitrary: acc) auto

lemma neighbor_scan_in_bounds:
  "c |\<in>| fst (neighbor_scan st cell) \<Longrightarrow> in_bounds (height st) (width st) c"
proof -
  have "\<forall>c. c |\<in>| fst (neighbor_scan st cell) \<longrightarrow> in_bounds (height st) (width st) c"
    unfolding neighbor_scan_def
    by (rule fold_invariant) (auto simp: neighbor_step_def Let_def)
  then show "c |\<in>| fst (neighbor_scan st cell) \<Longrightarrow> in_bounds (height st) (width st) c"
    by blast
qed

lemma cells_in_bounds_iff:
  "cells_in_bounds st \<longleftrightarrow>
     (\<forall>s\<in>set (knowledge st). \<forall>c. c |\<in>| cells s \<longrightarrow> in_bounds (height st) (width st) c)"
  by (auto simp: cells_in_bounds_def list_all_iff)

lemma cells_in_bounds_mark_safe: "cells_in_bounds st \<Longrightarrow> cells_in_bounds (mark_safe c st)"
  by (auto simp: cells_in_bounds_iff mark_safe_def Sentence_mark_safe_def split: if_splits)

lemma cells_in_bounds_mark_mine: "cells_in_bounds st \<Longrightarrow> cells_in_bounds (mark_mine c st)"
  by (auto simp: cells_in_bounds_iff mark_mine_def Sentence_mark_mine_def split: if_splits)

lemma cells_in_bounds_moves:
  "cells_in_bounds (st\<lparr>moves_made := m\<rparr>) = cells_in_bounds st"
  by (simp add: cells_in_bounds_iff)

lemma cells_in_bounds_add_sentence:
  "cells_in_bounds st \<Longrightarrow> cells_in_bounds (add_sentence c n st)"
  using neighbor_scan_in_bounds [of _ st c]
  by (auto simp: cells_in_bounds_iff add_sentence_def Let_def split: prod.splits)

lemma cells_in_bounds_update_pass: "cells_in_bounds st \<Longrightarrow> cells_in_bounds (update_pass st)"
  by (auto simp: cells_in_bounds_iff update_pass_eq cells_purge)

lemma cells_in_bounds_update_loop:
  "update_loop b st = Some st' \<Longrightarrow> cells_in_bounds st \<Longrightarrow> cells_in_bounds st'"
  by (rule update_loop_invariant [where P = cells_in_bounds])
     (auto simp: cells_in_bounds_update_pass)

lemma cells_in_bounds_infer:
  "cells_in_bounds st \<Longrightarrow> cells_in_bounds (infer_new_sentences st)"
  by (auto simp: cells_in_bounds_iff infer_new_sentences_def set_infer_new_knowledge
      derivable_def derive_def)

lemma cells_in_bounds_add_knowledge:
  assumes "add_knowledge c n st = Some st'" and "cells_in_bounds st"
  shows "cells_in_bounds st'"
proof -
  let ?st3 = "add_sentence c n (mark_safe c (st\<lparr>moves_made := finsert c (moves_made st)\<rparr>))"
  from assms(1) obtain st4 where u: "update_loop True ?st3 = Some st4"
    and st': "st' = infer_new_sentences st4"
    by (auto simp: add_knowledge_def Let_def update_knowledge_def)
  from assms(2) have "cells_in_bounds ?st3"
    by (simp add: cells_in_bounds_add_sentence cells_in_bounds_mark_safe cells_in_bounds_moves)
  with u have "cells_in_bounds st4" by (rule cells_in_bounds_update_loop)
  then show ?thesis unfolding st' by (rule cells_in_bounds_infer)
qed

lemma cells_from_add_knowledge:
  assumes run: "add_knowledge cell cnt st = Some st'"
    and s: "s \<in> set (knowledge st')" and x: "x |\<in>| cells s"
  shows "in_bounds (height st) (width st) x \<or> (\<exists>s0\<in>set (knowledge st). x |\<in>| cells s0)"
proof -
  define G where
    "G = {x. in_bounds (height st) (width st) x \<or> (\<exists>s0\<in>set (knowledge st). x |\<in>| cells s0)}"
  let ?Q = "\<lambda>e::engine. height e = height st \<and> width e = width st \<and>
      (\<forall>s\<in>set (knowledge e). \<forall>x. x |\<in>| cells s \<longrightarrow> x \<in> G)"
  let ?st2 = "mark_safe cell (st\<lparr>moves_made := finsert cell (moves_made st)\<rparr>)"
  let ?st3 = "add_sentence cell cnt ?st2"
  from run obtain st4 where u: "update_loop True ?st3 = Some st4"
    and st': "st' = infer_new_sentences st4"
    by (auto simp: add_knowledge_def Let_def update_knowledge_def)
  have old: "x \<in> G" if "s0 \<in> set (knowledge st)" "x |\<in>| cells s0" for s0 x
    using that unfolding G_def by blast
  have new: "x \<in> G" if "in_bounds (height st) (width st) x" for x
    using that unfolding G_def by blast
  have 2: "?Q ?st2"
    using old by (auto simp: mark_safe_def Sentence_mark_safe_def split: if_splits)
  have "x \<in> G" if "x |\<in>| fst (neighbor_scan ?st2 cell)" for x
    using neighbor_scan_in_bounds [OF that] by (simp add: mark_safe_def new)
  with 2 have 3: "?Q ?st3"
    by (auto simp: add_sentence_def Let_def split: prod.splits)
  have "?Q st4"
  proof (rule update_loop_invariant [OF u, where P = ?Q])
    show "?Q ?st3" by (rule 3)
  next
    fix e :: engine
    assume "?Q e"
    then show "?Q (update_pass e)"
      by (auto simp: update_pass_eq cells_purge)
  qed
  then have "?Q st'"
    unfolding st'
    by (auto simp: infer_new_sentences_def set_infer_new_knowledge derivable_def derive_def)
  with s x have "x \<in> G" by blast
  then show ?thesis unfolding G_def by blast
qed

lemma apply_operation_total: "\<exists>st'. apply_operation x st = Some st'"
  using add_knowledge_total update_loop_terminates [of True]
  by (cases x) (auto simp: update_knowledge_def)

lemma apply_operation_frame:
  "apply_operation x st = Some st' \<Longrightarrow> height st' = height st \<and> width st' = width st"
  using add_knowledge_frame(1,2) update_loop_frame [of True]
  by (cases x) (auto simp: update_knowledge_def mark_mine_def mark_safe_def infer_new_sentences_def)

lemma cells_in_bounds_apply_operation:
  "apply_operation x st = Some st' \<Longrightarrow> cells_in_bounds st \<Longrightarrow> cells_in_bounds st'"
  using cells_in_bounds_add_knowledge cells_in_bounds_update_loop [of True]
  by (cases x)
     (auto simp: update_knowledge_def cells_in_bounds_mark_mine cells_in_bounds_mark_safe
        cells_in_bounds_infer)

lemma apply_operations_in_bounds:
  "cells_in_bounds st \<Longrightarrow>
   \<exists>st'. apply_operations xs st = Some st' \<and> cells_in_bounds st' \<and>
     height st' = height st \<and> width st' = width st"
proof (induction xs arbitrary: st)
  case Nil
  then show ?case by simp
next
  case (Cons x xs)
  obtain st1 where 1: "apply_operation x st = Some st1"
    using apply_operation_total by blast
  from cells_in_bounds_apply_operation [OF 1 Cons.prems] have "cells_in_bounds st1" .
  from Cons.IH [OF this] apply_operation_frame [OF 1] 1 show ?case by auto
qed

section \<open>Counting mines\<close>

lemma sound_iff:
  "sound g st \<longleftrightarrow>
     height st = g_height g \<and> width st = g_width g \<and>
     (\<forall>c. c |\<in>| safes st \<longrightarrow> \<not> true_mine g c) \<and>
     (\<forall>c. c |\<in>| mines st \<longrightarrow> true_mine g c) \<and>
     (\<forall>s\<in>set (knowledge st). count s = mines_among g (cells s))"
  by (auto simp: sound_def list_all_iff)

lemma mines_among_fminus_safe:
  assumes "\<And>c. c |\<in>| S \<Longrightarrow> \<not> true_mine g c"
  shows "mines_among g (A |-| S) = mines_among g A"
proof -
  have "ffilter (true_mine g) (A |-| S) = ffilter (true_mine g) A"
    using assms by auto
  then show ?thesis by (simp add: mines_among_def)
qed

lemma mines_among_fminus_mine:
  assumes "\<And>c. c |\<in>| M \<Longrightarrow> true_mine g c"
  shows "mines_among g (A |-| M) = mines_among g A - int (fcard (A |\<inter>| M))"
proof -
  have "ffilter (true_mine g) A = ffilter (true_mine g) (A |-| M) |\<union>| (A |\<inter>| M)"
    using assms by auto
  moreover have "ffilter (true_mine g) (A |-| M) |\<inter>| (A |\<inter>| M) = {||}"
    by auto
  ultimately have "fcard (ffilter (true_mine g) A) =
      fcard (ffilter (true_mine g) (A |-| M)) + fcard (A |\<inter>| M)"
    by (metis fcard_funion_disjoint)
  then show ?thesis by (simp add: mines_among_def)
qed

lemma mines_among_fminus_subset:
  assumes "A |\<subseteq>| B"
  shows "mines_among g (B |-| A) = mines_among g B - mines_among g A"
proof -
  have sub: "ffilter (true_mine g) A |\<subseteq>| ffilter (true_mine g) B"
    using assms by auto
  have "ffilter (true_mine g) (B |-| A) = ffilter (true_mine g) B |-| ffilter (true_mine g) A"
    by auto
  then have "fcard (ffilter (true_mine g) (B |-| A)) =
      fcard (ffilter (true_mine g) B) - fcard (ffilter (true_mine g) A)"
    by (simp add: fcard_funion_fsubset [OF sub])
  moreover have "fcard (ffilter (true_mine g) A) \<le> fcard (ffilter (true_mine g) B)"
    by (rule fcard_mono [OF sub])
  ultimately show ?thesis by (simp add: mines_among_def)
qed

lemma mines_among_zero: "mines_among g A = 0 \<Longrightarrow> c |\<in>| A \<Longrightarrow> \<not> true_mine g c"
  by (auto simp: mines_among_def)

lemma mines_among_all:
  assumes "mines_among g A = int (fcard A)" and "c |\<in>| A"
  shows "true_mine g c"
proof -
  have "ffilter (true_mine g) A |\<subseteq>| A" by auto
  moreover from assms(1) have "fcard A \<le> fcard (ffilter (true_mine g) A)"
    by (simp add: mines_among_def)
  ultimately have "ffilter (true_mine g) A = A" by (rule fcard_seteq)
  with assms(2) show ?thesis by auto
qed

section \<open>The two neighbour loops\<close>

lemma upto_three: "[i - 1 .. i + 1] = [i - 1, i, i + 1]" for i :: int
proof -
  have "[i - 1 .. i + 1] = (i - 1) # [i .. i + 1]"
    by (subst upto_rec1) simp_all
  also have "[i .. i + 1] = i # [i + 1 .. i + 1]"
    by (subst upto_rec1) simp_all
  finally show ?thesis by simp
qed

lemma block_without_cell:
  "filter (\<lambda>ij. ij \<noteq> c) (List.product [fst c - 1 .. fst c + 1] [snd c - 1 .. snd c + 1]) =
     neighbors8 c"
  by (cases c) (simp add: upto_three neighbors8_def)

lemma offsets_without_zero:
  "map (\<lambda>d. (fst c + fst d, snd c + snd d))
     (filter (\<lambda>d. \<not> (fst d = 0 \<and> snd d = 0)) (List.product [-1, 0, 1] [-1, 0, 1])) =
     neighbors8 c"
  by (simp add: neighbors8_def)

lemma distinct_neighbors8: "distinct (neighbors8 c)"
  by (simp add: neighbors8_def)

lemma fold_nearby_step:
  "fold (nearby_step g cell) ijs k =
     k + int (length (filter (true_mine g) (filter (\<lambda>ij. ij \<noteq> cell) ijs)))"
  by (induction ijs arbitrary: k) (auto simp: nearby_step_def true_mine_def)

lemma nearby_mines_eq:
  "nearby_mines g cell = int (length (filter (true_mine g) (neighbors8 cell)))"
  by (simp add: nearby_mines_def fold_nearby_step block_without_cell)

lemma neighbor_step_pair:
  "neighbor_step st cell d (A, k) =
     (let n = (fst cell + fst d, snd cell + snd d)
      in if \<not> (fst d = 0 \<and> snd d = 0) \<and> in_bounds (height st) (width st) n
         then (if n |\<in>| mines st then (A, k + 1)
               else if n |\<notin>| safes st then (finsert n A, k) else (A, k))
         else (A, k))"
  by (simp add: neighbor_step_def Let_def)

lemma fold_neighbor_step:
  "fold (neighbor_step st cell) ds (A, k) =
     (let nbs = filter (in_bounds (height st) (width st))
                  (map (\<lambda>d. (fst cell + fst d, snd cell + snd d))
                     (filter (\<lambda>d. \<not> (fst d = 0 \<and> snd d = 0)) ds))
      in (A |\<union>| fset_of_list (filter (\<lambda>n. n |\<notin>| mines st \<and> n |\<notin>| safes st) nbs),
          k + int (length (filter (\<lambda>n. n |\<in>| mines st) nbs))))"
proof (induction ds arbitrary: A k)
  case Nil
  show ?case by (simp del: fset_of_list_filter fset_of_list_map)
next
  case (Cons d ds)
  show ?case
    by (simp add: Cons.IH neighbor_step_pair Let_def del: fset_of_list_filter fset_of_list_map)
qed

lemma neighbor_scan_eq:
  "neighbor_scan st cell =
     (let nbs = filter (in_bounds (height st) (width st)) (neighbors8 cell)
      in (fset_of_list (filter (\<lambda>n. n |\<notin>| mines st \<and> n |\<notin>| safes st) nbs),
          int (length (filter (\<lambda>n. n |\<in>| mines st) nbs))))"
  unfolding neighbor_scan_def fold_neighbor_step offsets_without_zero
  by (simp del: fset_of_list_filter fset_of_list_map)

lemma fcard_ffilter_fset_of_list:
  "distinct xs \<Longrightarrow> fcard (ffilter P (fset_of_list xs)) = length (filter P xs)"
proof -
  assume d: "distinct xs"
  have "fset (ffilter P (fset_of_list xs)) = set (filter P xs)"
    by (auto simp: fset_of_list.rep_eq)
  then have "fcard (ffilter P (fset_of_list xs)) = card (set (filter P xs))"
    by (simp add: fcard.rep_eq)
  also have "\<dots> = length (filter P xs)"
    using d distinct_card [of "filter P xs"] by simp
  finally show ?thesis .
qed

lemma length_filter_split:
  assumes "\<And>x. x \<in> set xs \<Longrightarrow> P x \<longleftrightarrow> Q x \<or> R x" and "\<And>x. x \<in> set xs \<Longrightarrow> \<not> (Q x \<and> R x)"
  shows "length (filter P xs) = length (filter Q xs) + length (filter R xs)"
  using assms by (induction xs) auto

lemma new_sentence_sound:
  assumes snd: "sound g st"
  shows "nearby_mines g cell - snd (neighbor_scan st cell) =
           mines_among g (fst (neighbor_scan st cell))"
proof -
  let ?nbs = "filter (in_bounds (height st) (width st)) (neighbors8 cell)"
  let ?new = "filter (\<lambda>n. n |\<notin>| mines st \<and> n |\<notin>| safes st) ?nbs"
  from snd have hw: "height st = g_height g" "width st = g_width g"
    and safe: "\<And>c. c |\<in>| safes st \<Longrightarrow> \<not> true_mine g c"
    and mine: "\<And>c. c |\<in>| mines st \<Longrightarrow> true_mine g c"
    by (auto simp: sound_iff)
  have d: "distinct ?new" by (simp add: distinct_neighbors8)
  have "filter (true_mine g) (neighbors8 cell) = filter (true_mine g) ?nbs"
    by (auto simp: true_mine_def hw intro!: filter_cong)
  then have "length (filter (true_mine g) (neighbors8 cell)) =
      length (filter (true_mine g) ?nbs)" by simp
  also have "\<dots> = length (filter (\<lambda>n. n |\<in>| mines st) ?nbs) +
      length (filter (\<lambda>n. (n |\<notin>| mines st \<and> n |\<notin>| safes st) \<and> true_mine g n) ?nbs)"
    by (rule length_filter_split) (use safe mine in auto)
  also have "length (filter (\<lambda>n. (n |\<notin>| mines st \<and> n |\<notin>| safes st) \<and> true_mine g n) ?nbs) =
      length (filter (true_mine g) ?new)"
    by (auto intro!: arg_cong [where f = length] filter_cong)
  also have "\<dots> = fcard (ffilter (true_mine g) (fset_of_list ?new))"
    by (rule fcard_ffilter_fset_of_list [OF d, symmetric])
  finally show ?thesis
    by (simp add: nearby_mines_eq neighbor_scan_eq Let_def mines_among_def
        del: fset_of_list_filter fset_of_list_map)
qed

section \<open>Soundness is preserved\<close>

lemma sound_moves: "sound g (st\<lparr>moves_made := m\<rparr>) = sound g st"
  by (simp add: sound_iff)

lemma sound_mark_safe:
  assumes "sound g st" and "\<not> true_mine g c"
  shows "sound g (mark_safe c st)"
  using assms mines_among_fminus_safe [of "{|c|}" g]
  by (auto simp: sound_iff mark_safe_def Sentence_mark_safe_purge purge_safe_def)

lemma sound_add_sentence:
  assumes "sound g st" and "cnt = nearby_mines g cell"
  shows "sound g (add_sentence cell cnt st)"
  using assms new_sentence_sound [OF assms(1), of cell]
  by (auto simp: sound_iff add_sentence_def Let_def split: prod.splits)

lemma sound_update_pass:
  assumes "sound g st"
  shows "sound g (update_pass st)"
proof -
  let ?S = "found_safes st" and ?M = "found_mines st"
  from assms have kb: "\<And>s. s \<in> set (knowledge st) \<Longrightarrow> count s = mines_among g (cells s)"
    by (simp add: sound_iff)
  have S: "\<not> true_mine g c" if "c |\<in>| ?S" for c
    using that kb mines_among_zero [of g _ c] by (auto simp: found_safes_iff)
  have M: "true_mine g c" if "c |\<in>| ?M" for c
    using that kb mines_among_all [of g _ c] by (auto simp: found_mines_iff)
  have "count (purge_mine ?M (purge_safe ?S s)) =
          mines_among g (cells (purge_mine ?M (purge_safe ?S s)))"
    if "s \<in> set (knowledge st)" for s
  proof -
    have "mines_among g (cells s |-| ?S |-| ?M) =
        mines_among g (cells s |-| ?S) - int (fcard ((cells s |-| ?S) |\<inter>| ?M))"
      by (rule mines_among_fminus_mine) (rule M)
    also have "mines_among g (cells s |-| ?S) = mines_among g (cells s)"
      by (rule mines_among_fminus_safe) (rule S)
    finally show ?thesis
      using kb [OF that] by (simp add: purge_mine_def purge_safe_def)
  qed
  with assms S M show ?thesis
    by (auto simp: sound_iff update_pass_eq)
qed

lemma sound_update_loop:
  "update_loop b st = Some st' \<Longrightarrow> sound g st \<Longrightarrow> sound g st'"
  by (rule update_loop_invariant [where P = "sound g"]) (auto simp: sound_update_pass)

lemma sound_infer:
  assumes "sound g st"
  shows "sound g (infer_new_sentences st)"
  using assms mines_among_fminus_subset [of _ _ g]
  by (auto simp: sound_iff infer_new_sentences_def set_infer_new_knowledge derivable_def
      derive_def)

lemma sound_add_knowledge:
  assumes "add_knowledge c n st = Some st'" and "sound g st" and "obeys_contract g (c, n)"
  shows "sound g st'"
proof -
  let ?st2 = "mark_safe c (st\<lparr>moves_made := finsert c (moves_made st)\<rparr>)"
  let ?st3 = "add_sentence c n ?st2"
  from assms(1) obtain st4 where u: "update_loop True ?st3 = Some st4"
    and st': "st' = infer_new_sentences st4"
    by (auto simp: add_knowledge_def Let_def update_knowledge_def)
  from assms(3) have nm: "\<not> true_mine g c" and n: "n = nearby_mines g c"
    by (simp_all add: obeys_contract_def true_mine_def)
  from assms(2) nm have "sound g ?st2"
    by (simp add: sound_mark_safe sound_moves)
  then have "sound g ?st3" using n by (rule sound_add_sentence)
  with u have "sound g st4" by (rule sound_update_loop)
  then show ?thesis unfolding st' by (rule sound_infer)
qed

lemma sound_add_knowledge_seq:
  "add_knowledge_seq obs st = Some st' \<Longrightarrow> sound g st \<Longrightarrow> list_all (obeys_contract g) obs \<Longrightarrow>
   sound g st'"
proof (induction obs arbitrary: st)
  case Nil
  then show ?case by simp
next
  case (Cons ob obs)
  then obtain st1 where 1: "add_knowledge (fst ob) (snd ob) st = Some st1"
    and 2: "add_knowledge_seq obs st1 = Some st'"
    by (auto split: option.splits)
  from Cons.prems(3) have "obeys_contract g (fst ob, snd ob)" and rest: "list_all (obeys_contract g) obs"
    by simp_all
  from sound_add_knowledge [OF 1 Cons.prems(2) this(1)] have "sound g st1" .
  from Cons.IH [OF 2 this rest] show ?case .
qed

lemma sound_disjoint: "sound g st \<Longrightarrow> safes st |\<inter>| mines st = {||}"
  by (auto simp: sound_iff)

section \<open>A sentence with count zero\<close>



section \<open>Evaluating the example runs\<close>

lemma finsert_fminus_eval:
  "finsert x A |-| B = (if x |\<in>| B then A |-| B else finsert x (A |-| B))"
  by auto

lemma finsert_finter_eval:
  "finsert x A |\<inter>| B = (if x |\<in>| B then finsert x (A |\<inter>| B) else A |\<inter>| B)"
  by auto

lemma finsert_eq_eval:
  "(finsert x A = finsert y B) =
     (finsert x A |\<subseteq>| finsert y B \<and> finsert y B |\<subseteq>| finsert x A)"
  by auto

lemma add_knowledge_steps:
  assumes "add_sentence cell cnt
             (mark_safe cell (st\<lparr>moves_made := finsert cell (moves_made st)\<rparr>)) = st3"
    and "\<not> pass_updated st3" and "update_pass st3 = st4" and "infer_new_sentences st4 = st5"
  shows "add_knowledge cell cnt st = Some st5"
  using assms
  by (simp add: add_knowledge_def Let_def update_knowledge_def update_loop_True update_loop_False)

lemma add_knowledge_steps3:
  assumes "add_sentence cell cnt
             (mark_safe cell (st\<lparr>moves_made := finsert cell (moves_made st)\<rparr>)) = st3"
    and "pass_updated st3" and "update_pass st3 = p1"
    and "pass_updated p1" and "update_pass p1 = p2"
    and "\<not> pass_updated p2" and "update_pass p2 = st4"
    and "infer_new_sentences st4 = st5"
  shows "add_knowledge cell cnt st = Some st5"
proof -
  have "update_knowledge st3 = update_loop True p1"
    using assms(2,3) by (simp add: update_knowledge_def update_loop_True)
  also have "\<dots> = update_loop True p2"
    using assms(4,5) by (simp add: update_loop_True)
  also have "\<dots> = Some st4"
    using assms(6,7) by (simp add: update_loop_True update_loop_False)
  finally show ?thesis
    using assms(1,8) by (simp add: add_knowledge_def Let_def)
qed

lemmas scan_eval = add_sentence_def neighbor_scan_def neighbor_step_def in_bounds_def
  mark_safe_def Sentence_mark_safe_def finsert_fminus_eval finsert_eq_eval
lemmas pass_eval = pass_updated_def update_pass_def found_safes_def found_mines_def
  known_safes_def known_mines_def mark_safe_each_eq mark_mine_each_eq purge_safe_def purge_mine_def
  fcard_finsert_if fcard_fempty Let_def finsert_fminus_eval finsert_finter_eval
  finsert_eq_eval
lemmas infer_eval = infer_new_sentences_def infer_new_knowledge_def infer_inner_def Let_def
  finsert_fminus_eval finsert_eq_eval

lemma dup_call_1: "add_knowledge (0, 0) 1 (init_engine 4 4) = Some dup_1"
proof (rule add_knowledge_steps)
  show "add_sentence (0, 0) 1 (mark_safe (0, 0)
          ((init_engine 4 4)\<lparr>moves_made := finsert (0, 0) (moves_made (init_engine 4 4))\<rparr>)) = dup_1"
    by (simp add: init_engine_def dup_1_def scan_eval)
  show "\<not> pass_updated dup_1" by (simp add: dup_1_def pass_eval)
  show "update_pass dup_1 = dup_1" by (simp add: dup_1_def pass_eval)
  show "infer_new_sentences dup_1 = dup_1" by (simp add: dup_1_def infer_eval)
qed

lemma dup_call_2: "add_knowledge (0, 1) 2 dup_1 = Some dup_2"
proof (rule add_knowledge_steps)
  show "add_sentence (0, 1) 2 (mark_safe (0, 1)
          (dup_1\<lparr>moves_made := finsert (0, 1) (moves_made dup_1)\<rparr>)) = dup_2_pre"
    by (simp add: dup_1_def dup_2_pre_def scan_eval)
  show "\<not> pass_updated dup_2_pre" by (simp add: dup_2_pre_def pass_eval)
  show "update_pass dup_2_pre = dup_2_pre" by (simp add: dup_2_pre_def pass_eval)
  show "infer_new_sentences dup_2_pre = dup_2" by (simp add: dup_2_pre_def dup_2_def infer_eval)
qed

lemma dup_call_3_pre: "add_sentence (3, 3) 1 (mark_safe (3, 3)
          (dup_2\<lparr>moves_made := finsert (3, 3) (moves_made dup_2)\<rparr>)) = dup_3_pre"
  by (simp add: dup_2_def dup_3_pre_def scan_eval)

lemma dup_infer: "infer_new_sentences dup_3_pre = dup_3"
  by (simp add: dup_3_pre_def dup_3_def infer_eval)

lemma dup_call_3: "add_knowledge (3, 3) 1 dup_2 = Some dup_3"
proof (rule add_knowledge_steps)
  show "add_sentence (3, 3) 1 (mark_safe (3, 3)
          (dup_2\<lparr>moves_made := finsert (3, 3) (moves_made dup_2)\<rparr>)) = dup_3_pre"
    by (rule dup_call_3_pre)
  show "\<not> pass_updated dup_3_pre" by (simp add: dup_3_pre_def pass_eval)
  show "update_pass dup_3_pre = dup_3_pre" by (simp add: dup_3_pre_def pass_eval)
  show "infer_new_sentences dup_3_pre = dup_3" by (rule dup_infer)
qed

lemma ab_call_1: "add_knowledge (1, 2) 1 (init_engine 2 3) = Some ab_1"
proof (rule add_knowledge_steps)
  show "add_sentence (1, 2) 1 (mark_safe (1, 2)
          ((init_engine 2 3)\<lparr>moves_made := finsert (1, 2) (moves_made (init_engine 2 3))\<rparr>)) = ab_1"
    by (simp add: init_engine_def ab_1_def scan_eval)
  show "\<not> pass_updated ab_1" by (simp add: ab_1_def pass_eval)
  show "update_pass ab_1 = ab_1" by (simp add: ab_1_def pass_eval)
  show "infer_new_sentences ab_1 = ab_1" by (simp add: ab_1_def infer_eval)
qed

lemma ab_call_2: "add_knowledge (1, 0) 1 ab_1 = Some ab_2"
proof (rule add_knowledge_steps)
  show "add_sentence (1, 0) 1 (mark_safe (1, 0)
          (ab_1\<lparr>moves_made := finsert (1, 0) (moves_made ab_1)\<rparr>)) = ab_2"
    by (simp add: ab_1_def ab_2_def scan_eval)
  show "\<not> pass_updated ab_2" by (simp add: ab_2_def pass_eval)
  show "update_pass ab_2 = ab_2" by (simp add: ab_2_def pass_eval)
  show "infer_new_sentences ab_2 = ab_2" by (simp add: ab_2_def infer_eval)
qed

lemma ab_infer: "infer_new_sentences ab_3_pre = ab_3"
  by (simp add: ab_3_pre_def ab_3_def infer_eval)

lemma ab_call_3: "add_knowledge (1, 1) 1 ab_2 = Some ab_3"
proof (rule add_knowledge_steps)
  show "add_sentence (1, 1) 1 (mark_safe (1, 1)
          (ab_2\<lparr>moves_made := finsert (1, 1) (moves_made ab_2)\<rparr>)) = ab_3_pre"
    by (simp add: ab_2_def ab_3_pre_def scan_eval)
  show "\<not> pass_updated ab_3_pre" by (simp add: ab_3_pre_def pass_eval)
  show "update_pass ab_3_pre = ab_3_pre" by (simp add: ab_3_pre_def pass_eval)
  show "infer_new_sentences ab_3_pre = ab_3" by (rule ab_infer)
qed

lemma ab_call_4: "add_knowledge (1, 1) 1 ab_3 = Some ab_4"
proof (rule add_knowledge_steps3)
  show "add_sentence (1, 1) 1 (mark_safe (1, 1)
          (ab_3\<lparr>moves_made := finsert (1, 1) (moves_made ab_3)\<rparr>)) = ab_4_pre"
    by (simp add: ab_3_def ab_4_pre_def scan_eval)
  show "pass_updated ab_4_pre" by (simp add: ab_4_pre_def pass_eval)
  show "update_pass ab_4_pre = ab_4_pass" by (simp add: ab_4_pre_def ab_4_pass_def pass_eval)
  show "pass_updated ab_4_pass" by (simp add: ab_4_pass_def pass_eval)
  show "update_pass ab_4_pass = ab_4" by (simp add: ab_4_pass_def ab_4_def pass_eval)
  show "\<not> pass_updated ab_4" by (simp add: ab_4_def pass_eval)
  show "update_pass ab_4 = ab_4" by (simp add: ab_4_def pass_eval)
  show "infer_new_sentences ab_4 = ab_4" by (simp add: ab_4_def infer_eval)
qed

lemma oob_call: "add_knowledge (- 1, 0) 1 (init_engine 2 2) = Some st_oob"
proof (rule add_knowledge_steps)
  show "add_sentence (- 1, 0) 1 (mark_safe (- 1, 0)
          ((init_engine 2 2)\<lparr>moves_made := finsert (- 1, 0) (moves_made (init_engine 2 2))\<rparr>)) =
        st_oob"
    by (simp add: init_engine_def st_oob_def scan_eval)
  show "\<not> pass_updated st_oob" by (simp add: st_oob_def pass_eval)
  show "update_pass st_oob = st_oob" by (simp add: st_oob_def pass_eval)
  show "infer_new_sentences st_oob = st_oob" by (simp add: st_oob_def infer_eval)
qed

lemma random_choices_st_rand: "random_choices st_rand = [(0, 1)]"
  by (simp add: random_choices_def st_rand_def upto.simps)

lemma contract_2x3:
  "list_all (obeys_contract game_2x3) [((1, 2), 1), ((1, 0), 1), ((1, 1), 1), ((1, 1), 1)]"
  by (simp add: obeys_contract_def game_2x3_def in_bounds_def board_at_def
      nearby_mines_def nearby_step_def upto.simps)

section \<open>The claims\<close>

text \<open>
  C1. The inference pass does not compare a derived sentence with the knowledge base,
  only with the sentences derived earlier in the same pass: in the third call of the 4x4
  run the sentence \<open>{(0, 2), (1, 2)} = 1\<close> is in the knowledge base when the pass
  starts, is derived again from the first two sentences, and is appended a second time,
  so that the knowledge base after the call holds equal sentences.
\<close>

theorem infer_new_sentences_readds_known:
  "add_knowledge_seq [((0, 0), 1), ((0, 1), 2), ((3, 3), 1)] (init_engine 4 4) = Some dup_3 \<and>
   add_knowledge (3, 3) 1 dup_2 = Some (infer_new_sentences dup_3_pre) \<and>
   \<lparr>cells = {|(0, 2), (1, 2)|}, count = 1\<rparr> \<in> set (knowledge dup_3_pre) \<and>
   knowledge (infer_new_sentences dup_3_pre) =
     knowledge dup_3_pre @
       [\<lparr>cells = {|(0, 2), (1, 2)|}, count = 1\<rparr>, \<lparr>cells = {|(1, 0), (1, 1)|}, count = 1\<rparr>] \<and>
   \<not> distinct (knowledge dup_3)"
proof -
  have "add_knowledge_seq [((0, 0), 1), ((0, 1), 2), ((3, 3), 1)] (init_engine 4 4) = Some dup_3"
    by (simp add: dup_call_1 dup_call_2 dup_call_3)
  moreover have "knowledge dup_3 = knowledge dup_3_pre @
       [\<lparr>cells = {|(0, 2), (1, 2)|}, count = 1\<rparr>, \<lparr>cells = {|(1, 0), (1, 1)|}, count = 1\<rparr>]"
    by (simp add: dup_3_def dup_3_pre_def)
  moreover have "\<lparr>cells = {|(0, 2), (1, 2)|}, count = 1\<rparr> \<in> set (knowledge dup_3_pre)"
    by (simp add: dup_3_pre_def)
  moreover have "\<not> distinct (knowledge dup_3)"
    by (simp add: dup_3_def)
  ultimately show ?thesis
    by (simp add: dup_infer dup_call_3)
qed

text \<open>
  C2, as amended. \<open>add_knowledge\<close> does not reject a cell that lies off the grid: for
  every such cell the call returns a new state, in which the cell has been added to
  \<open>moves_made\<close> and is in \<open>safes\<close>. The neighbour loop keeps only the
  neighbours that are on the grid, and so does the state returned: every cell of every
  sentence in it is on the grid or was in a sentence before the call, and when all
  cells of all sentences were on the grid before the call they are so after it.
\<close>

theorem out_of_bounds_accepted:
  "\<not> in_bounds (height st) (width st) cell \<Longrightarrow>
   \<exists>st'. add_knowledge cell cnt st = Some st' \<and>
     moves_made st' = finsert cell (moves_made st) \<and> cell |\<in>| safes st' \<and>
     (\<forall>c. c |\<in>| fst (neighbor_scan
                      (mark_safe cell (st\<lparr>moves_made := finsert cell (moves_made st)\<rparr>)) cell) \<longrightarrow>
        in_bounds (height st) (width st) c) \<and>
     (\<forall>s\<in>set (knowledge st'). \<forall>c. c |\<in>| cells s \<longrightarrow>
        in_bounds (height st) (width st) c \<or> (\<exists>s0\<in>set (knowledge st). c |\<in>| cells s0)) \<and>
     (cells_in_bounds st \<longrightarrow> cells_in_bounds st')"
proof -
  obtain st' where r: "add_knowledge cell cnt st = Some st'"
    using add_knowledge_total by blast
  have "\<forall>c. c |\<in>| fst (neighbor_scan
                      (mark_safe cell (st\<lparr>moves_made := finsert cell (moves_made st)\<rparr>)) cell) \<longrightarrow>
        in_bounds (height st) (width st) c"
    using neighbor_scan_in_bounds
      [of _ "mark_safe cell (st\<lparr>moves_made := finsert cell (moves_made st)\<rparr>)" cell]
    by (auto simp: mark_safe_def)
  moreover have "\<forall>s\<in>set (knowledge st'). \<forall>c. c |\<in>| cells s \<longrightarrow>
        in_bounds (height st) (width st) c \<or> (\<exists>s0\<in>set (knowledge st). c |\<in>| cells s0)"
    using cells_from_add_knowledge [OF r] by blast
  moreover have "cells_in_bounds st \<longrightarrow> cells_in_bounds st'"
    using cells_in_bounds_add_knowledge [OF r] by blast
  moreover have "moves_made st' = finsert cell (moves_made st)" "cell |\<in>| safes st'"
    using add_knowledge_frame(3,4) [OF r] by auto
  ultimately show ?thesis using r by blast
qed

text \<open>
  The claim as stated fails on a 2x2 engine for the cell \<open>(-1, 0)\<close>: the call
  returns, and the returned state differs from the initial one in \<open>moves_made\<close>,
  \<open>safes\<close> and the knowledge base.
\<close>

theorem out_of_bounds_counterexample:
  "\<not> in_bounds (height (init_engine 2 2)) (width (init_engine 2 2)) (- 1, 0) \<and>
   add_knowledge (- 1, 0) 1 (init_engine 2 2) = Some st_oob \<and>
   moves_made st_oob = {|(- 1, 0)|} \<and> safes st_oob = {|(- 1, 0)|} \<and>
   knowledge st_oob = [\<lparr>cells = {|(0, 0), (0, 1)|}, count = 1\<rparr>] \<and>
   st_oob \<noteq> init_engine 2 2"
  by (simp add: oob_call) (simp add: st_oob_def init_engine_def in_bounds_def)

theorem out_of_bounds_accepted_witness:
  "\<not> in_bounds (height (init_engine 2 2)) (width (init_engine 2 2)) (- 1, 0) \<and>
   cells_in_bounds (init_engine 2 2) \<and>
   add_knowledge (- 1, 0) 1 (init_engine 2 2) = Some st_oob \<and>
   moves_made st_oob = {|(- 1, 0)|} \<and> (- 1, 0) |\<in>| safes st_oob \<and>
   knowledge st_oob = [\<lparr>cells = {|(0, 0), (0, 1)|}, count = 1\<rparr>] \<and>
   cells_in_bounds st_oob"
proof -
  have oob: "\<not> in_bounds (height (init_engine 2 2)) (width (init_engine 2 2)) (- 1, 0)"
    by (simp add: init_engine_def in_bounds_def)
  have init: "cells_in_bounds (init_engine 2 2)"
    by (simp add: cells_in_bounds_def init_engine_def)
  from out_of_bounds_accepted [OF oob, of 1] oob_call init
  have "moves_made st_oob = finsert (- 1, 0) (moves_made (init_engine 2 2))"
    and "(- 1, 0) |\<in>| safes st_oob" and "cells_in_bounds st_oob"
    by auto
  moreover have "knowledge st_oob = [\<lparr>cells = {|(0, 0), (0, 1)|}, count = 1\<rparr>]"
    by (simp add: st_oob_def)
  ultimately show ?thesis using oob init oob_call
    by (simp add: init_engine_def)
qed

text \<open>
  C3. The saturation loop \<open>update_knowledge\<close> returns for every engine state, in a
  state where a further pass finds neither a safe cell nor a mine; every pass that finds
  a safe cell or a mine (so that the loop goes on) strictly lowers the total number of
  cells over all sentences; and after a pass no sentence holds a cell that the pass
  found safe or a mine.
\<close>

theorem update_knowledge_terminates:
  "(\<exists>st'. update_knowledge st = Some st' \<and> \<not> pass_updated st') \<and>
   (pass_updated st \<longrightarrow> total_cells (update_pass st) < total_cells st) \<and>
   (\<forall>s\<in>set (knowledge (update_pass st)).
      cells s |\<inter>| (found_safes st |\<union>| found_mines st) = {||})"
proof -
  obtain st' where r: "update_knowledge st = Some st'"
    using update_loop_terminates [of True st] by (auto simp: update_knowledge_def)
  then have "\<not> pass_updated st'"
    using update_loop_fixpoint [of True st st'] by (simp add: update_knowledge_def)
  moreover have "\<forall>s\<in>set (knowledge (update_pass st)).
      cells s |\<inter>| (found_safes st |\<union>| found_mines st) = {||}"
    by (auto simp: update_pass_eq cells_purge)
  ultimately show ?thesis using r by (simp add: update_pass_decreases)
qed

theorem update_knowledge_terminates_witness:
  "pass_updated st_single_mine \<and>
   total_cells (update_pass st_single_mine) < total_cells st_single_mine \<and>
   knowledge (update_pass st_single_mine) = [] \<and>
   (\<exists>st'. update_knowledge st_single_mine = Some st' \<and> \<not> pass_updated st')"
proof -
  have "pass_updated st_single_mine"
    by (simp add: st_single_mine_def pass_eval)
  moreover have "knowledge (update_pass st_single_mine) = []"
    by (simp add: st_single_mine_def pass_eval)
  ultimately show ?thesis
    using update_knowledge_terminates [of st_single_mine] by simp
qed

text \<open>
  C4. For every well-formed game and every sequence of observations that respects the
  contract of \<open>add_knowledge\<close>, the calls return and \<open>safes\<close> and \<open>mines\<close> are
  disjoint afterwards. Every prefix of such a sequence respects the contract too, so
  this holds after each call; and within a call both sets only grow, so it holds at
  every point of the call.
\<close>

theorem safes_mines_disjoint:
  "board_ok g \<Longrightarrow> list_all (obeys_contract g) obs \<Longrightarrow>
   \<exists>st. add_knowledge_seq obs (init_engine (g_height g) (g_width g)) = Some st \<and>
     safes st |\<inter>| mines st = {||}"
proof -
  assume c: "list_all (obeys_contract g) obs"
  obtain st where r: "add_knowledge_seq obs (init_engine (g_height g) (g_width g)) = Some st"
    using add_knowledge_seq_total by blast
  have "sound g (init_engine (g_height g) (g_width g))"
    by (simp add: sound_iff init_engine_def)
  from sound_add_knowledge_seq [OF r this c] have "sound g st" .
  with r show ?thesis by (auto dest: sound_disjoint)
qed

theorem safes_mines_disjoint_witness:
  "board_ok game_2x3 \<and>
   list_all (obeys_contract game_2x3) [((1, 2), 1), ((1, 0), 1), ((1, 1), 1), ((1, 1), 1)] \<and>
   add_knowledge_seq [((1, 2), 1), ((1, 0), 1), ((1, 1), 1), ((1, 1), 1)]
     (init_engine (g_height game_2x3) (g_width game_2x3)) = Some ab_4 \<and>
   mines ab_4 = {|(0, 1)|} \<and> (0, 0) |\<in>| safes ab_4 \<and> (0, 2) |\<in>| safes ab_4 \<and>
   safes ab_4 |\<inter>| mines ab_4 = {||}"
proof -
  have ok: "board_ok game_2x3"
    by (simp add: board_ok_def game_2x3_def)
  have run: "add_knowledge_seq [((1, 2), 1), ((1, 0), 1), ((1, 1), 1), ((1, 1), 1)]
     (init_engine (g_height game_2x3) (g_width game_2x3)) = Some ab_4"
    by (simp add: game_2x3_def ab_call_1 ab_call_2 ab_call_3 ab_call_4)
  have m: "mines ab_4 = {|(0, 1)|}" "(0, 0) |\<in>| safes ab_4" "(0, 2) |\<in>| safes ab_4"
    by (simp_all add: ab_4_def)
  from safes_mines_disjoint [OF ok contract_2x3] run
  have "safes ab_4 |\<inter>| mines ab_4 = {||}" by simp
  with ok contract_2x3 run m show ?thesis by simp
qed

text \<open>
  C5. From every engine state and for every sequence of \<open>add_knowledge\<close> calls, the
  calls return and every member of \<open>safes\<close>, respectively \<open>mines\<close>, before the
  calls is a member afterwards.
\<close>

theorem safes_mines_monotone:
  "\<exists>st'. add_knowledge_seq obs st = Some st' \<and>
     safes st |\<subseteq>| safes st' \<and> mines st |\<subseteq>| mines st'"
  using add_knowledge_seq_total [of obs st] add_knowledge_seq_mono by blast




text \<open>
  C7. The candidates of \<open>make_random_move\<close> are exactly the cells of the grid that
  are neither in \<open>moves_made\<close> nor in \<open>mines\<close>; the function returns \<open>None\<close>
  exactly when there is none; whatever the random draw, a returned cell is a candidate,
  so it is neither in \<open>moves_made\<close> nor in \<open>mines\<close>; and every candidate is
  returned for some draw.
\<close>

theorem make_random_move_spec:
  "set (random_choices st) =
     {c. in_bounds (height st) (width st) c} - (fset (moves_made st) \<union> fset (mines st)) \<and>
   (make_random_move r st = None \<longleftrightarrow> set (random_choices st) = {}) \<and>
   (\<forall>c. make_random_move r st = Some c \<longrightarrow>
      c \<in> set (random_choices st) \<and> c |\<notin>| moves_made st \<and> c |\<notin>| mines st) \<and>
   (\<forall>c \<in> set (random_choices st). \<exists>r'. make_random_move r' st = Some c)"
proof -
  have a: "make_random_move r st = None \<longleftrightarrow> set (random_choices st) = {}"
    by (simp add: make_random_move_def Let_def)
  have b: "c \<in> set (random_choices st) \<and> c |\<notin>| moves_made st \<and> c |\<notin>| mines st"
    if "make_random_move r st = Some c" for c
  proof -
    from that have ne: "random_choices st \<noteq> []"
      and c: "c = random_choices st ! (r mod length (random_choices st))"
      by (auto simp: make_random_move_def Let_def split: if_splits)
    from ne have "r mod length (random_choices st) < length (random_choices st)" by simp
    with c have "c \<in> set (random_choices st)" by simp
    then show ?thesis by (auto simp: set_random_choices)
  qed
  have c: "\<exists>r'. make_random_move r' st = Some c" if "c \<in> set (random_choices st)" for c
  proof -
    from that obtain i where i: "i < length (random_choices st)" "random_choices st ! i = c"
      by (auto simp: in_set_conv_nth)
    then have "make_random_move i st = Some c"
      by (auto simp: make_random_move_def Let_def)
    then show ?thesis ..
  qed
  from a b c show ?thesis by (simp add: set_random_choices)
qed

theorem make_random_move_spec_witness:
  "make_random_move 5 st_rand = Some (0, 1) \<and> (0, 1) \<in> set (random_choices st_rand) \<and>
   (0, 1) |\<notin>| moves_made st_rand \<and> (0, 1) |\<notin>| mines st_rand"
proof -
  have r: "make_random_move 5 st_rand = Some (0, 1)"
    by (simp add: make_random_move_def random_choices_st_rand)
  from make_random_move_spec [of st_rand 5]
  have "\<forall>c. make_random_move 5 st_rand = Some c \<longrightarrow>
      c \<in> set (random_choices st_rand) \<and> c |\<notin>| moves_made st_rand \<and> c |\<notin>| mines st_rand"
    by blast
  with r show ?thesis by blast
qed

text \<open>
  C8. For every engine state and every cell, \<open>mark_mine\<close> applied twice gives the
  same engine as applied once, and so does \<open>mark_safe\<close>.
\<close>

theorem mark_twice_idempotent:
  "mark_mine c (mark_mine c st) = mark_mine c st \<and>
   mark_safe c (mark_safe c st) = mark_safe c st"
  by (simp add: mark_mine_def mark_safe_def Sentence_mark_mine_twice Sentence_mark_safe_twice
      comp_def)

text \<open>
  C9. After every sequence of \<open>add_knowledge\<close> calls on a new engine, the calls
  return and \<open>moves_made\<close> is a subset of \<open>safes\<close>.
\<close>

theorem moves_made_subset_safes:
  "\<exists>st'. add_knowledge_seq obs (init_engine h w) = Some st' \<and> moves_made st' |\<subseteq>| safes st'"
proof -
  obtain st' where r: "add_knowledge_seq obs (init_engine h w) = Some st'"
    using add_knowledge_seq_total by blast
  have "moves_made (init_engine h w) |\<subseteq>| safes (init_engine h w)"
    by (simp add: init_engine_def)
  with add_knowledge_seq_moves_safe [OF r] r show ?thesis by blast
qed

text \<open>
  C10. After every sequence of operations on a new engine, with observed cells on or
  off the grid, the operations return and every cell of every sentence of the knowledge
  base lies on the grid.
\<close>

theorem statement_cells_in_bounds:
  "\<exists>st'. apply_operations xs (init_engine h w) = Some st' \<and>
     (\<forall>s\<in>set (knowledge st'). \<forall>c. c |\<in>| cells s \<longrightarrow> in_bounds h w c)"
proof -
  have "cells_in_bounds (init_engine h w)"
    by (simp add: cells_in_bounds_iff init_engine_def)
  from apply_operations_in_bounds [OF this, of xs] show ?thesis
    by (auto simp: cells_in_bounds_iff init_engine_def)
qed

theorem statement_cells_in_bounds_witness:
  "apply_operations [Add_knowledge (- 1, 0) 1] (init_engine 2 2) = Some st_oob \<and>
   \<lparr>cells = {|(0, 0), (0, 1)|}, count = 1\<rparr> \<in> set (knowledge st_oob) \<and>
   in_bounds 2 2 (0, 0) \<and> in_bounds 2 2 (0, 1)"
proof -
  have run: "apply_operations [Add_knowledge (- 1, 0) 1] (init_engine 2 2) = Some st_oob"
    by (simp add: oob_call)
  have s: "\<lparr>cells = {|(0, 0), (0, 1)|}, count = 1\<rparr> \<in> set (knowledge st_oob)"
    by (simp add: st_oob_def)
  from statement_cells_in_bounds [of "[Add_knowledge (- 1, 0) 1]" 2 2] run
  have "\<forall>s\<in>set (knowledge st_oob). \<forall>c. c |\<in>| cells s \<longrightarrow> in_bounds 2 2 c"
    by simp
  with s have "in_bounds 2 2 (0, 0)" "in_bounds 2 2 (0, 1)"
    by fastforce+
  with run s show ?thesis by simp
qed

end
